theory Spec2Isabelle
  imports Main "HOL-Library.Word"
begin

unbundle bit_operations_syntax

section \<open>Outcomes of C++ calls\<close>

text \<open>
  A C++ call either returns, throws, or has undefined behaviour (a read outside a
  vector's elements). All three are values of the model.
\<close>

datatype exn = Std_exception string | Non_std_exception

datatype 'a outcome = Returns 'a | Throws exn | Undefined

type_synonym u8 = "8 word"
type_synonym u32 = "32 word"
type_synonym u64 = "64 word"

section \<open>OriginalSampleRateDecoder\<close>

definition OriginalSampleRateDecoder :: "u32 \<Rightarrow> u32 outcome" where
  "OriginalSampleRateDecoder c =
     (if c > 15 then Throws (Std_exception ''Invalid bytecode'')
      else
        let base = (if c AND 1 \<noteq> 0 then 48000 else 44100 :: u32);
            multiplier = (push_bit (unat ((drop_bit 3 c AND 1)
                                          OR push_bit 1 (drop_bit 2 c AND 1)
                                          OR push_bit 2 (drop_bit 1 c AND 1))) 1 :: u32);
            multiplier = (if multiplier > 16 then multiplier * 2 else multiplier)
        in Returns (base * multiplier))"

section \<open>The FLAC stream, as the decoder callbacks see it\<close>

text \<open>
  A decoded sample pair is \<open>std::array<const FLAC__int32, 2>\<close>; the detector only ever
  reads the two values through \<open>static_cast<uint32_t>\<close>, so a pair of 32-bit words.
\<close>

type_synonym sample = "u32 \<times> u32"

text \<open>
  The metadata blocks handed to \<open>metadata_callback\<close>: STREAMINFO with sample rate,
  channels and bits per sample, and VORBIS_COMMENT with its raw entries.
\<close>

datatype metadata = STREAMINFO u32 u32 u32 | VORBIS_COMMENT "string list"

text \<open>
  What one call of libFLAC's \<open>process_single\<close> does, seen from the callbacks: it reports
  the listed error statuses to \<open>error_callback\<close> (lost sync, bad header, CRC mismatch),
  then hands the frame it has decoded, if any, to \<open>write_callback\<close> and returns whether
  the callback said to continue; without a frame it returns the given value. The
  decoder is in state END_OF_STREAM once the listed calls are used up.
\<close>

datatype process_single = Call "string list" "sample list option" bool

text \<open>The usual call: one frame, no error.\<close>

abbreviation Frame :: "sample list \<Rightarrow> process_single" where
  "Frame frame \<equiv> Call [] (Some frame) True"

record flac_file =
  init_failure :: "string option"    \<comment> \<open>status string of a failed \<open>init\<close>, None when it is OK\<close>
  metadata_blocks :: "metadata list"
  calls :: "process_single list"
  state_string :: string              \<comment> \<open>\<open>get_state().resolved_as_cstring\<close> after the loop\<close>
  reserve_failure :: "string option"  \<comment> \<open>\<open>what()\<close> of the exception of \<open>samples.reserve\<close>, if it throws\<close>

section \<open>MQA_identifier::MyDecoder\<close>

record MyDecoder =
  sample_rate :: u32
  channels :: u32
  bps :: u32
  decoded_samples :: u64
  samples :: "sample list"
  mqa_encoder :: string
  original_sample_rate :: u32
  error_message :: string

definition MyDecoder_new :: MyDecoder where
  "MyDecoder_new = \<lparr>sample_rate = 0, channels = 0, bps = 0, decoded_samples = 0, samples = [],
     mqa_encoder = [], original_sample_rate = 0, error_message = []\<rparr>"

text \<open>\<open>std::to_string\<close> of an unsigned value: its decimal digits.\<close>

fun to_string :: "nat \<Rightarrow> string" where
  "to_string n =
     (if n < 10 then [''0123456789'' ! n]
      else to_string (n div 10) @ [''0123456789'' ! (n mod 10)])"

declare to_string.simps [simp del]

datatype write_status = CONTINUE | ABORT

definition write_callback :: "sample list \<Rightarrow> MyDecoder \<Rightarrow> write_status \<times> MyDecoder" where
  "write_callback frame d =
     (if channels d \<noteq> 2 \<or> (bps d \<noteq> 16 \<and> bps d \<noteq> 24)
      then (ABORT, d\<lparr>error_message := ''Unsupported Audio Format: '' @ to_string (unat (channels d))
                        @ '' channels, '' @ to_string (unat (bps d)) @ '' bits''\<rparr>)
      else (CONTINUE, d\<lparr>decoded_samples := decoded_samples d + of_nat (length frame),
                          samples := samples d @ frame\<rparr>))"

definition metadata_callback :: "MyDecoder \<Rightarrow> metadata \<Rightarrow> MyDecoder" where
  "metadata_callback d m =
     (case m of
        STREAMINFO r c b \<Rightarrow> d\<lparr>sample_rate := r, channels := c, bps := b\<rparr>
      | VORBIS_COMMENT comments \<Rightarrow>
          foldl (\<lambda>d comment. if take 10 comment = ''MQAENCODER''
                              then d\<lparr>mqa_encoder := drop 10 comment\<rparr> else d) d comments)"

definition error_callback :: "string \<Rightarrow> MyDecoder \<Rightarrow> MyDecoder" where
  "error_callback status d = d\<lparr>error_message := error_message d @ ''FLAC Error: '' @ status @ ''; ''\<rparr>"

definition do_process_single :: "process_single \<Rightarrow> MyDecoder \<Rightarrow> bool \<times> MyDecoder" where
  "do_process_single c d =
     (case c of
        Call statuses frame b \<Rightarrow>
          (let d = foldl (\<lambda>d status. error_callback status d) d statuses
           in case frame of
                None \<Rightarrow> (b, d)
              | Some frame \<Rightarrow> (case write_callback frame d of (st, d') \<Rightarrow> (st = CONTINUE, d'))))"

text \<open>
  The loop of \<open>decode\<close>: while fewer than \<open>sample_rate * 3\<close> samples are decoded (a
  32-bit product, compared in 64 bits), no error is recorded and the stream has not
  ended, \<open>ok = process_single()\<close>.
\<close>

fun decode_loop :: "process_single list \<Rightarrow> bool \<Rightarrow> MyDecoder \<Rightarrow> bool \<times> MyDecoder" where
  "decode_loop [] ok d = (ok, d)"
| "decode_loop (c # cs) ok d =
     (if decoded_samples d < ucast (sample_rate d * 3) \<and> error_message d = []
      then (case do_process_single c d of (ok', d') \<Rightarrow> decode_loop cs ok' d')
      else (ok, d))"

definition decode :: "flac_file \<Rightarrow> MyDecoder \<Rightarrow> unit outcome \<times> MyDecoder" where
  "decode f d =
     (let (ok, d) = (case init_failure f of
                       Some s \<Rightarrow> (False, d\<lparr>error_message := ''Initializing decoder failed: '' @ s\<rparr>)
                     | None \<Rightarrow> (True, d));
          d = foldl metadata_callback d (if init_failure f = None then metadata_blocks f else [])
      in case reserve_failure f of
           Some w \<Rightarrow> (Throws (Std_exception w), d)
         | None \<Rightarrow>
             (let (ok, d) = decode_loop (calls f) ok d;
                  d = (if \<not> ok \<and> error_message d = []
                       then d\<lparr>error_message := ''Decoding failed: '' @ state_string f\<rparr> else d)
              in (Returns (), d)))"

section \<open>MQA_identifier\<close>

text \<open>
  The members \<open>isMQA_\<close>, \<open>isMQAStudio_\<close> and \<open>error_message_\<close> carry the suffix \<open>_m\<close>
  here; \<open>file_\<close> is the path, which the file record stands for.
\<close>

record MQA_identifier =
  decoder :: MyDecoder
  isMQA_m :: bool
  isMQAStudio_m :: bool
  error_message_m :: string

definition MQA_identifier_new :: MQA_identifier where
  "MQA_identifier_new =
     \<lparr>decoder = MyDecoder_new, isMQA_m = False, isMQAStudio_m = False, error_message_m = []\<rparr>"

text \<open>
  The scanning loop of \<open>detect\<close>, up to the branch it takes: each sample ORs its three
  bits into the three registers, the registers are compared with the magic word in the
  order \<open>buffer\<close>, \<open>buffer1\<close>, \<open>buffer2\<close>, and when none matches all three are shifted
  left and masked. The result is the branch (0, 1 or 2) and the index of the sample
  \<open>s\<close> at which it is taken, or None when the loop runs off the end of the vector.
\<close>

fun find_sync :: "nat \<Rightarrow> u64 \<Rightarrow> u64 \<Rightarrow> u64 \<Rightarrow> nat \<Rightarrow> sample list \<Rightarrow> (nat \<times> nat) option" where
  "find_sync pos buffer buffer1 buffer2 i [] = None"
| "find_sync pos buffer buffer1 buffer2 i (s # rest) =
     (let buffer = buffer OR ucast (drop_bit pos (fst s XOR snd s) AND (1 :: u32));
          buffer1 = buffer1 OR ucast (drop_bit (pos + 1) (fst s XOR snd s) AND (1 :: u32));
          buffer2 = buffer2 OR ucast (drop_bit (pos + 2) (fst s XOR snd s) AND (1 :: u32))
      in if buffer = 0xbe0498c88 then Some (0, i)
         else if buffer1 = 0xbe0498c88 then Some (1, i)
         else if buffer2 = 0xbe0498c88 then Some (2, i)
         else find_sync pos (push_bit 1 buffer AND 0xFFFFFFFFF)
                            (push_bit 1 buffer1 AND 0xFFFFFFFFF)
                            (push_bit 1 buffer2 AND 0xFFFFFFFFF) (Suc i) rest)"

text \<open>
  The two read-ahead loops of a branch: for each \<open>m\<close>, \<open>cur = *(&s + m)\<close> is the element
  \<open>m\<close> places after \<open>s\<close>, which exists only when \<open>i + m\<close> is below the vector's size;
  reading it otherwise is undefined behaviour. The bit \<open>j\<close> goes to position \<open>hi - m\<close>
  of an 8-bit accumulator.
\<close>

fun read_ahead :: "sample list \<Rightarrow> nat \<Rightarrow> nat \<Rightarrow> nat \<Rightarrow> nat list \<Rightarrow> u8 \<Rightarrow> u8 outcome" where
  "read_ahead xs i shift hi [] acc = Returns acc"
| "read_ahead xs i shift hi (m # ms) acc =
     (if i + m < length xs
      then (let cur = xs ! (i + m);
                j = drop_bit shift (fst cur XOR snd cur) AND (1 :: u32)
            in read_ahead xs i shift hi ms (acc OR ucast (push_bit (hi - m) j)))
      else Undefined)"

definition on_match :: "sample list \<Rightarrow> nat \<Rightarrow> nat \<Rightarrow> MQA_identifier \<Rightarrow> bool outcome \<times> MQA_identifier" where
  "on_match xs shift i this =
     (let this = this\<lparr>isMQA_m := True\<rparr>
      in case read_ahead xs i shift 6 [3, 4, 5, 6] 0 of
           Undefined \<Rightarrow> (Undefined, this)
         | Throws e \<Rightarrow> (Throws e, this)
         | Returns orsf \<Rightarrow>
            (case OriginalSampleRateDecoder (ucast orsf) of
               Undefined \<Rightarrow> (Undefined, this)
             | Throws e \<Rightarrow> (Throws e, this)
             | Returns r \<Rightarrow>
                (let this = this\<lparr>decoder := (decoder this)\<lparr>original_sample_rate := r\<rparr>\<rparr>
                 in case read_ahead xs i shift 33 [29, 30, 31, 32, 33] 0 of
                      Undefined \<Rightarrow> (Undefined, this)
                    | Throws e \<Rightarrow> (Throws e, this)
                    | Returns provenance \<Rightarrow>
                        (Returns True, this\<lparr>isMQAStudio_m := provenance > 8\<rparr>))))"

text \<open>
  The body of the \<open>try\<close> block. \<open>pos = bps - 16u\<close> is a 32-bit value; shifting a 32-bit
  value by 32 or more is undefined, which the loop would do on its first sample when
  \<open>pos\<close>, \<open>pos + 1\<close> or \<open>pos + 2\<close> is that large.
\<close>

definition detect_try :: "flac_file \<Rightarrow> MQA_identifier \<Rightarrow> bool outcome \<times> MQA_identifier" where
  "detect_try f this =
     (case decode f (decoder this) of (r, d) \<Rightarrow>
        (let this = this\<lparr>decoder := d\<rparr>
         in case r of
              Throws e \<Rightarrow> (Throws e, this)
            | Undefined \<Rightarrow> (Undefined, this)
            | Returns _ \<Rightarrow>
                if error_message d \<noteq> []
                then (Returns False, this\<lparr>error_message_m := error_message d\<rparr>)
                else (let pos = bps d - 16
                      in if samples d \<noteq> [] \<and> 30 \<le> unat pos then (Undefined, this)
                         else case find_sync (unat pos) 0 0 0 0 (samples d) of
                                None \<Rightarrow> (Returns False, this)
                              | Some (k, i) \<Rightarrow> on_match (samples d) (unat pos + k) i this)))"

text \<open>\<open>detect\<close>: the \<open>try\<close> block with its two handlers.\<close>

definition detect :: "flac_file \<Rightarrow> MQA_identifier \<Rightarrow> bool outcome \<times> MQA_identifier" where
  "detect f this =
     (case detect_try f this of
        (Throws (Std_exception what), this) \<Rightarrow>
          (Returns False, this\<lparr>error_message_m := ''Exception: '' @ what\<rparr>)
      | (Throws Non_std_exception, this) \<Rightarrow>
          (Returns False, this\<lparr>error_message_m := ''Unknown exception during detection''\<rparr>)
      | (r, this) \<Rightarrow> (r, this))"

section \<open>The batch driver: counters, ledger and files\<close>

text \<open>
  The globals of \<open>main.cc\<close> that the tasks share: the two counters (\<open>size_t\<close>, 64 bits),
  the \<open>--dry-run\<close> flag and the ledger \<open>scan_errors\<close>, a map from a reason to the paths
  logged under it. Console output and the verbose \<open>detailed_log\<close> are write-only text and
  are left out.
\<close>

record globals =
  scanned_count :: u64
  mqa_count :: u64
  dry_run :: bool
  scan_errors :: "string \<rightharpoonup> string list"

definition log_skip :: "string \<Rightarrow> string \<Rightarrow> globals \<Rightarrow> globals" where
  "log_skip path reason g =
     g\<lparr>scan_errors := (scan_errors g)(reason \<mapsto>
          (case scan_errors g reason of None \<Rightarrow> [] | Some paths \<Rightarrow> paths) @ [path])\<rparr>"

text \<open>
  A metadata block of a file as the FLAC metadata chain shows it: the Vorbis comment
  block with its entries \<open>NAME=value\<close>, or a block of another type.
\<close>

datatype block = VorbisComment "string list" | Other_block

text \<open>
  A file on disk: its path as \<open>safe_path_string\<close> prints it, whether it opens, its first
  bytes, what the constructor of \<open>MQA_identifier\<close> throws (if anything), the stream the
  decoder reads from it, its metadata chain, and whether the chain can be read, extended
  by a block, and written back.
\<close>

record disk_file =
  path_string :: string
  openable :: bool
  first_bytes :: string
  ctor_failure :: "exn option"
  flac :: flac_file
  read_ok :: bool
  insert_ok :: bool
  write_ok :: bool
  blocks :: "block list"

text \<open>
  libFLAC's \<open>FLAC__metadata_object_vorbiscomment_entry_matches\<close>: the entry has an \<open>=\<close>,
  the text before its first \<open>=\<close> is as long as the field name, and equals it up to the
  case of ASCII letters. \<open>find_entry_from\<close> gives the first matching index from
  \<open>offset\<close> on, or -1.
\<close>

definition tolower :: "char \<Rightarrow> char" where
  "tolower c = (case map_of (zip ''ABCDEFGHIJKLMNOPQRSTUVWXYZ'' ''abcdefghijklmnopqrstuvwxyz'') c of
                  Some l \<Rightarrow> l | None \<Rightarrow> c)"

definition entry_matches :: "string \<Rightarrow> string \<Rightarrow> bool" where
  "entry_matches entry field_name \<longleftrightarrow>
     CHR ''='' \<in> set entry
     \<and> length (takeWhile (\<lambda>c. c \<noteq> CHR ''='') entry) = length field_name
     \<and> map tolower (take (length field_name) entry) = map tolower field_name"

definition find_entry_from :: "nat \<Rightarrow> string \<Rightarrow> string list \<Rightarrow> int" where
  "find_entry_from offset field_name comments =
     (case find (\<lambda>i. entry_matches (comments ! i) field_name) [offset..<length comments] of
        Some i \<Rightarrow> int i
      | None \<Rightarrow> - 1)"

text \<open>\<open>FLAC::Metadata::VorbisComment::Entry(name, value)\<close>.\<close>

definition Entry :: "string \<Rightarrow> string \<Rightarrow> string" where
  "Entry field_name field_value = field_name @ ''='' @ field_value"

text \<open>The value that \<open>tagFile\<close> writes into the MQAENCODER tag.\<close>

definition encoder_value :: string where
  "encoder_value =
     ''MQAEncode v1.1, 2.3.3+800 (a505918), F8EC1703-7616-45E5-B81E-D60821434062, Dec 01 2017 22:19:30''"

text \<open>The iterator of \<open>tagFile\<close>: the index of the first Vorbis comment block of the chain.\<close>

fun find_vorbis :: "block list \<Rightarrow> nat \<Rightarrow> (nat \<times> string list) option" where
  "find_vorbis [] n = None"
| "find_vorbis (VorbisComment es # bs) n = Some (n, es)"
| "find_vorbis (Other_block # bs) n = find_vorbis bs (Suc n)"

definition tagFile :: "disk_file \<Rightarrow> u32 \<Rightarrow> globals \<Rightarrow> globals \<times> disk_file" where
  "tagFile file original_rate g =
     (let fileStr = path_string file
      in if dry_run g then (g, file)
         else if \<not> read_ok file then (log_skip fileStr ''Failed to read metadata chain'' g, file)
         else
           (case (case find_vorbis (blocks file) 0 of
                    Some (n, es) \<Rightarrow> Some (blocks file, n, es)
                  | None \<Rightarrow> if insert_ok file
                             then Some (blocks file @ [VorbisComment []], length (blocks file), [])
                             else None) of
              None \<Rightarrow> (log_skip fileStr ''Failed to create new VorbisComment block'' g, file)
            | Some (chain, n, vcBlock) \<Rightarrow>
               (let (vcBlock, modified) =
                      (if find_entry_from 0 ''MQAENCODER'' vcBlock = - 1
                       then (vcBlock @ [Entry ''MQAENCODER'' encoder_value], True)
                       else (vcBlock, False));
                    (vcBlock, modified) =
                      (if original_rate > 0 \<and> find_entry_from 0 ''ORIGINALSAMPLERATE'' vcBlock = - 1
                       then (vcBlock @ [Entry ''ORIGINALSAMPLERATE'' (to_string (unat original_rate))],
                             True)
                       else (vcBlock, modified))
                in if modified
                   then (if \<not> write_ok file
                         then (log_skip fileStr ''Failed to write metadata changes'' g, file)
                         else (g, file\<lparr>blocks := chain[n := VorbisComment vcBlock]\<rparr>))
                   else (g, file))))"

text \<open>
  \<open>processFile\<close> of \<open>main.cc\<close>. The header check, the construction of the identifier and
  the call of \<open>detect\<close> each sit in a \<open>try\<close> of their own whose handlers log, count the
  file and return. Nothing else in the body throws in this model, so the two outer
  handlers (which log, count the file once and return) are never entered. Undefined
  behaviour inside \<open>detect\<close> is undefined behaviour of the task.
\<close>

definition count_scanned :: "globals \<Rightarrow> globals" where
  "count_scanned g = g\<lparr>scanned_count := scanned_count g + 1\<rparr>"

definition processFile :: "disk_file \<Rightarrow> nat \<Rightarrow> globals \<Rightarrow> unit outcome \<times> globals \<times> disk_file" where
  "processFile file index g =
     (let filename_str = path_string file
      in if \<not> openable file
         then (Returns (), count_scanned (log_skip filename_str (''Invalid FLAC: '' @ ''Cannot open file'') g), file)
         else if length (first_bytes file) < 4
         then (Returns (), count_scanned (log_skip filename_str (''Invalid FLAC: '' @ ''File too small or unreadable'') g), file)
         else if take 4 (first_bytes file) \<noteq> ''fLaC''
         then (Returns (), count_scanned (log_skip filename_str ''Not a valid FLAC file'' g), file)
         else case ctor_failure file of
           Some (Std_exception what) \<Rightarrow>
             (Returns (), count_scanned (log_skip filename_str (''Failed to create decoder: '' @ what) g), file)
         | Some Non_std_exception \<Rightarrow>
             (Returns (), count_scanned (log_skip filename_str ''Failed to create decoder'' g), file)
         | None \<Rightarrow>
            (case detect (flac file) MQA_identifier_new of
               (Throws (Std_exception what), ident) \<Rightarrow>
                 (Returns (), count_scanned (log_skip filename_str (''detect() failed: '' @ what) g), file)
             | (Throws Non_std_exception, ident) \<Rightarrow>
                 (Returns (), count_scanned (log_skip filename_str ''detect() crashed - possible file corruption'' g), file)
             | (Undefined, ident) \<Rightarrow> (Undefined, g, file)
             | (Returns detected, ident) \<Rightarrow>
                 if detected
                 then (case tagFile file (original_sample_rate (decoder ident)) g of
                         (g, file) \<Rightarrow>
                           (Returns (), count_scanned (g\<lparr>mqa_count := mqa_count g + 1\<rparr>), file))
                 else (let err = error_message_m ident
                       in if err \<noteq> []
                          then (Returns (), count_scanned (log_skip (path_string file) err g), file)
                          else (Returns (), count_scanned g, file))))"

text \<open>
  The loop of \<open>main\<close> over the files found: one call of \<open>processFile\<close> after the other,
  an exception of a call being caught and ignored.
\<close>

fun process_all :: "disk_file list \<Rightarrow> nat \<Rightarrow> globals \<Rightarrow> unit outcome \<times> globals \<times> disk_file list" where
  "process_all [] count g = (Returns (), g, [])"
| "process_all (file # files) count g =
     (case processFile file (Suc count) g of
        (Undefined, g, file) \<Rightarrow> (Undefined, g, file # files)
      | (r, g, file) \<Rightarrow>
          (case process_all files (Suc count) g of (r, g, files) \<Rightarrow> (r, g, file # files)))"

section \<open>Scheduling of the tasks in the listings of \<open>main\<close>\<close>










section \<open>Properties, as the specification words them\<close>

text \<open>
  The rate table in the specification's words: base 48000 when the code is odd, 44100
  otherwise; the exponent takes bit 3 of the code as its bit 0, bit 2 as its bit 1 and
  bit 1 as its bit 2; a multiplier above 16 is doubled.
\<close>

definition decodeOriginalRate_spec :: "nat \<Rightarrow> nat" where
  "decodeOriginalRate_spec code =
     (let base = (if odd code then 48000 else 44100);
          bit1 = (code div 2) mod 2;
          bit2 = (code div 4) mod 2;
          bit3 = (code div 8) mod 2;
          m = 2 ^ (bit3 + 2 * bit2 + 4 * bit1);
          multiplier = (if m > 16 then 2 * m else m)
      in base * multiplier)"

text \<open>
  The synchronization constant appears in the bit-plane \<open>basePosition + k\<close> of the
  XOR-difference stream with its 36th bit arriving at sample \<open>i\<close>: bit \<open>t\<close> of the
  constant is carried by the sample \<open>t\<close> places before \<open>i\<close>, most significant bit first.
\<close>

definition sync_at :: "nat \<Rightarrow> nat \<Rightarrow> sample list \<Rightarrow> nat \<Rightarrow> bool" where
  "sync_at basePosition k xs i \<longleftrightarrow>
     35 \<le> i \<and> i < length xs \<and>
     (\<forall>t\<in>{0..<36}. bit (fst (xs ! (i - t)) XOR snd (xs ! (i - t))) (basePosition + k)
                     = bit (0xBE0498C88 :: nat) t)"

text \<open>
  The stream's format is what the metadata callbacks leave in a fresh decoder:
  \<open>sample_rate\<close>, \<open>channels\<close> and \<open>bps\<close> of the STREAMINFO block.
\<close>

definition after_metadata :: "flac_file \<Rightarrow> MyDecoder" where
  "after_metadata f = foldl metadata_callback MyDecoder_new (metadata_blocks f)"

text \<open>
  A call of \<open>process_single\<close> without a decoder error: no status is reported, and it
  delivers a frame or returns true.
\<close>

fun clean_call :: "process_single \<Rightarrow> bool" where
  "clean_call (Call statuses frame b) \<longleftrightarrow> statuses = [] \<and> (frame \<noteq> None \<or> b)"

text \<open>A call that invokes no callback at all.\<close>

fun is_silent :: "process_single \<Rightarrow> bool" where
  "is_silent (Call statuses frame b) \<longleftrightarrow> statuses = [] \<and> frame = None"

text \<open>The frame of a call, if it has one, holds at most \<open>B\<close> samples.\<close>

fun block_size_le :: "nat \<Rightarrow> process_single \<Rightarrow> bool" where
  "block_size_le B (Call statuses frame b) \<longleftrightarrow> (case frame of None \<Rightarrow> True | Some fr \<Rightarrow> length fr \<le> B)"

text \<open>
  The tags of a file are the entries of the first Vorbis comment block of its chain.
\<close>

definition vorbis_entries :: "disk_file \<Rightarrow> string list" where
  "vorbis_entries file = (case find_vorbis (blocks file) 0 of Some (n, es) \<Rightarrow> es | None \<Rightarrow> [])"

definition tag_count :: "string \<Rightarrow> disk_file \<Rightarrow> nat" where
  "tag_count field_name file = length (filter (\<lambda>e. entry_matches e field_name) (vorbis_entries file))"

text \<open>
  A task's outcome is a positive detection when the file passes the header check, the
  identifier is constructed and \<open>detect\<close> returns true.
\<close>

definition positive_detection :: "disk_file \<Rightarrow> bool" where
  "positive_detection file \<longleftrightarrow>
     openable file \<and> 4 \<le> length (first_bytes file) \<and> take 4 (first_bytes file) = ''fLaC''
     \<and> ctor_failure file = None
     \<and> fst (detect (flac file) MQA_identifier_new) = Returns True"

text \<open>
  The only way a task has no defined outcome: the file passes the header check, the
  identifier is constructed, and \<open>detect\<close> runs into undefined behaviour.
\<close>

definition runs_into_undefined :: "disk_file \<Rightarrow> bool" where
  "runs_into_undefined file \<longleftrightarrow>
     openable file \<and> 4 \<le> length (first_bytes file) \<and> take 4 (first_bytes file) = ''fLaC''
     \<and> ctor_failure file = None
     \<and> fst (detect (flac file) MQA_identifier_new) = Undefined"



section \<open>Concrete streams\<close>

text \<open>The 36 bits of 0xBE0498C88, most significant first.\<close>

definition sync_word_bits :: "bool list" where
  "sync_word_bits =
     [True, False, True, True,   True, True, True, False,   False, False, False, False,
      False, True, False, False,   True, False, False, True,   True, False, False, False,
      True, True, False, False,   True, False, False, False,   True, False, False, False]"

text \<open>Samples whose left channel is \<open>v\<close> where the sync word has a 1, and silence otherwise.\<close>

definition sync_samples :: "u32 \<Rightarrow> sample list" where
  "sync_samples v = map (\<lambda>b. (if b then v else 0, 0)) sync_word_bits"

definition stream_of :: "u32 \<Rightarrow> u32 \<Rightarrow> u32 \<Rightarrow> process_single list \<Rightarrow> flac_file" where
  "stream_of rate ch bits cs =
     \<lparr>init_failure = None, metadata_blocks = [STREAMINFO rate ch bits], calls = cs,
      state_string = ''FLAC__STREAM_DECODER_END_OF_STREAM'', reserve_failure = None\<rparr>"

text \<open>A mono stream that holds no audio frame at all.\<close>

definition mono_no_frames :: flac_file where
  "mono_no_frames = stream_of 44100 1 16 []"

text \<open>A mono stream with one frame of one sample.\<close>

definition mono_one_frame :: flac_file where
  "mono_one_frame = stream_of 44100 1 16 [Frame [(0, 0)]]"

text \<open>A stereo stream of 8 Hz in two frames of 16 samples: 4 seconds of silence.\<close>

definition two_frames_8Hz :: flac_file where
  "two_frames_8Hz = stream_of 8 2 16 [Frame (replicate 16 (0, 0)), Frame (replicate 16 (0, 0))]"

text \<open>A 16-bit stereo stream that ends with the last bit of the sync word in plane 0.\<close>

definition truncated_after_sync :: flac_file where
  "truncated_after_sync = stream_of 44100 2 16 [Frame (sync_samples 1)]"

text \<open>The same stream when the allocation of the sample vector fails.\<close>

definition out_of_memory :: flac_file where
  "out_of_memory = truncated_after_sync\<lparr>reserve_failure := Some ''std::bad_alloc''\<rparr>"

text \<open>Streams with and without the watermark, long enough for the payload.\<close>

definition watermarked :: flac_file where
  "watermarked = stream_of 44100 2 16 [Frame (sync_samples 1 @ replicate 34 (0, 0))]"

definition silence :: flac_file where
  "silence = stream_of 44100 2 16 [Frame (replicate 40 (0, 0))]"

definition file_of :: "string \<Rightarrow> string \<Rightarrow> flac_file \<Rightarrow> block list \<Rightarrow> disk_file" where
  "file_of path bytes stream chain =
     \<lparr>path_string = path, openable = True, first_bytes = bytes, ctor_failure = None,
      flac = stream, read_ok = True, insert_ok = True, write_ok = True, blocks = chain\<rparr>"

text \<open>
  A watermarked file, a file without the watermark, and a text file named \<open>.flac\<close>
  (which fails the header check, so that its stream is never decoded).
\<close>

definition positive_file :: disk_file where
  "positive_file = file_of ''a.flac'' ''fLaC'' watermarked [Other_block]"

definition negative_file :: disk_file where
  "negative_file = file_of ''b.flac'' ''fLaC'' silence [Other_block, VorbisComment [''TITLE=b'']]"

definition text_file :: disk_file where
  "text_file = file_of ''c.flac'' ''Not a flac'' mono_no_frames []"

definition globals_start :: globals where
  "globals_start = \<lparr>scanned_count = 0, mqa_count = 0, dry_run = False, scan_errors = Map.empty\<rparr>"

text \<open>A chain that already holds both tags, the first in lower case.\<close>

definition tagged_file :: disk_file where
  "tagged_file = file_of ''d.flac'' ''fLaC'' watermarked
     [Other_block, VorbisComment [''mqaencoder=x'', ''ORIGINALSAMPLERATE=44100'']]"

section \<open>Auxiliary notions for the scanner's invariant\<close>

definition shifted :: "u64 \<Rightarrow> u64" where
  "shifted b = push_bit 1 b AND 0xFFFFFFFFF"

definition plane_bit :: "nat \<Rightarrow> sample \<Rightarrow> u64" where
  "plane_bit p s = ucast (drop_bit p (fst s XOR snd s) AND (1 :: u32))"

text \<open>The register of plane \<open>p\<close> at the comparison, after the samples \<open>ys\<close>.\<close>

definition reg :: "nat \<Rightarrow> sample list \<Rightarrow> u64" where
  "reg p ys = foldl (\<lambda>b s. shifted b OR plane_bit p s) 0 ys"

definition hit :: "nat \<Rightarrow> sample list \<Rightarrow> nat \<Rightarrow> nat \<Rightarrow> bool" where
  "hit pos xs i k \<longleftrightarrow> reg (pos + k) (take (Suc i) xs) = 0xbe0498c88"

definition first_hit :: "nat \<Rightarrow> sample list \<Rightarrow> nat \<Rightarrow> nat \<Rightarrow> nat \<Rightarrow> bool" where
  "first_hit pos xs lo k i \<longleftrightarrow>
     lo \<le> i \<and> i < length xs \<and> k < 3 \<and> hit pos xs i k \<and> (\<forall>k'<k. \<not> hit pos xs i k')
     \<and> (\<forall>i'. lo \<le> i' \<and> i' < i \<longrightarrow> (\<forall>k'<3. \<not> hit pos xs i' k'))"

text \<open>What \<open>tagFile\<close> makes of the entries of the comment block.\<close>

definition add_tags :: "u32 \<Rightarrow> string list \<Rightarrow> string list" where
  "add_tags original_rate es =
     (let es1 = (if find_entry_from 0 ''MQAENCODER'' es = - 1
                 then es @ [Entry ''MQAENCODER'' encoder_value]
                 else es)
      in if original_rate > 0 \<and> find_entry_from 0 ''ORIGINALSAMPLERATE'' es1 = - 1
         then es1 @ [Entry ''ORIGINALSAMPLERATE'' (to_string (unat original_rate))]
         else es1)"


section \<open>The rate table\<close>

lemma word_le_15_cases:
  fixes c :: u32
  assumes "c \<le> 15"
  shows "c \<in> {0,1,2,3,4,5,6,7,8,9,10,11,12,13,14,15}"
proof -
  have "unat c < 16" using assms by (simp add: word_le_nat_alt)
  then have "unat c \<in> {0,1,2,3,4,5,6,7,8,9,10,11,12,13,14,15}" by simp arith
  then have "word_of_nat (unat c) \<in> (word_of_nat ` {0,1,2,3,4,5,6,7,8,9,10,11,12,13,14,15} :: u32 set)"
    by (rule imageI)
  then show ?thesis by simp
qed

lemma OriginalSampleRateDecoder_in_range:
  "c \<le> 15 \<Longrightarrow> \<exists>r. OriginalSampleRateDecoder c = Returns r \<and> unat r = decodeOriginalRate_spec (unat c)"
  apply (drule word_le_15_cases)
  apply (elim insertE emptyE)
  apply (simp_all add: OriginalSampleRateDecoder_def decodeOriginalRate_spec_def)
  done

lemma OriginalSampleRateDecoder_out_of_range:
  "15 < c \<Longrightarrow> OriginalSampleRateDecoder c = Throws (Std_exception ''Invalid bytecode'')"
  by (simp add: OriginalSampleRateDecoder_def)

text \<open>
  C3. For every code from 0 to 15 the decoder returns base times multiplier as the
  specification words it (no 32-bit wrap-around occurs), with 44100 for 0b0000, 48000
  for 0b0001 and 12288000 for 0b1111; for every larger code it throws the
  \<open>Invalid bytecode\<close> logic error.
\<close>

theorem OriginalSampleRateDecoder_table:
  "(c \<le> 15 \<longrightarrow> (\<exists>r. OriginalSampleRateDecoder c = Returns r \<and> unat r = decodeOriginalRate_spec (unat c)))
   \<and> (15 < c \<longrightarrow> OriginalSampleRateDecoder c = Throws (Std_exception ''Invalid bytecode''))
   \<and> OriginalSampleRateDecoder 0 = Returns 44100
   \<and> OriginalSampleRateDecoder 1 = Returns 48000
   \<and> OriginalSampleRateDecoder 15 = Returns 12288000"
proof (intro conjI impI)
  show "c \<le> 15 \<Longrightarrow> \<exists>r. OriginalSampleRateDecoder c = Returns r \<and> unat r = decodeOriginalRate_spec (unat c)"
    by (rule OriginalSampleRateDecoder_in_range)
  show "15 < c \<Longrightarrow> OriginalSampleRateDecoder c = Throws (Std_exception ''Invalid bytecode'')"
    by (rule OriginalSampleRateDecoder_out_of_range)
qed (simp_all add: OriginalSampleRateDecoder_def)

theorem OriginalSampleRateDecoder_table_witness:
  "(5 :: u32) \<le> 15 \<and> (\<exists>r. OriginalSampleRateDecoder 5 = Returns r \<and> unat r = 192000)
   \<and> decodeOriginalRate_spec 5 = 192000
   \<and> (15 :: u32) < 16 \<and> OriginalSampleRateDecoder 16 = Throws (Std_exception ''Invalid bytecode'')"
  using OriginalSampleRateDecoder_table [of 5] OriginalSampleRateDecoder_table [of 16]
  by (simp add: decodeOriginalRate_spec_def)

section \<open>The scanner\<close>

lemma reg_Nil: "reg p [] = 0"
  by (simp add: reg_def)
lemma reg_snoc: "reg p (ys @ [s]) = shifted (reg p ys) OR plane_bit p s"
  by (simp add: reg_def)

lemma mask36: "(0xFFFFFFFFF :: u64) = mask 36"
  by (simp add: mask_eq_exp_minus_1)

lemma bit_plane_bit: "bit (plane_bit p s) n \<longleftrightarrow> n = 0 \<and> bit (fst s XOR snd s) p"
  unfolding plane_bit_def by (auto simp add: bit_simps)

lemma bit_shifted: "bit (shifted b) n \<longleftrightarrow> 0 < n \<and> n < 36 \<and> bit b (n - 1)"
  unfolding shifted_def mask36 bit_and_iff bit_push_bit_iff bit_mask_iff
  by (cases n) auto

lemma shifted_0: "shifted 0 = 0"
  by (simp add: shifted_def)

lemma bit_reg: "bit (reg p ys) n \<longleftrightarrow> n < 36 \<and> n < length ys \<and> bit (fst (ys ! (length ys - 1 - n)) XOR snd (ys ! (length ys - 1 - n))) p"
proof (induction ys arbitrary: n rule: rev_induct)
  case Nil
  then show ?case by (simp add: reg_Nil)
next
  case (snoc s ys)
  show ?case
  proof (cases n)
    case 0
    then show ?thesis by (simp add: reg_snoc bit_or_iff bit_shifted bit_plane_bit)
  next
    case (Suc m)
    then show ?thesis
      by (auto simp add: reg_snoc bit_or_iff bit_shifted bit_plane_bit snoc.IH nth_append)
  qed
qed


lemma magic_top: "bit (0xBE0498C88 :: nat) 35"
  by (simp add: bit_iff_odd)

lemma magic_upper: "bit (0xBE0498C88 :: nat) n \<Longrightarrow> n < 36"
proof (rule ccontr)
  assume b: "bit (0xBE0498C88 :: nat) n" and "\<not> n < 36"
  then have "36 \<le> n" by simp
  then have "(2::nat) ^ 36 \<le> 2 ^ n" by (rule power_increasing) simp
  moreover have "(0xBE0498C88 :: nat) < 2 ^ 36" by simp
  ultimately have "(0xBE0498C88 :: nat) < 2 ^ n" by linarith
  then have "(0xBE0498C88 :: nat) div 2 ^ n = 0" by simp
  with b show False by (simp add: bit_iff_odd)
qed

lemma bit_magic_word: "bit (0xbe0498c88 :: u64) n \<longleftrightarrow> bit (0xBE0498C88 :: nat) n"
proof -
  have "(0xbe0498c88 :: u64) = of_nat 0xBE0498C88" by simp
  then have "bit (0xbe0498c88 :: u64) n \<longleftrightarrow> n < 64 \<and> bit (0xBE0498C88 :: nat) n"
    by (simp only: bit_of_nat_iff possible_bit_word) simp
  then show ?thesis using magic_upper [of n] by auto
qed

lemma reg_eq_magic:
  assumes "i < length xs"
  shows "reg (pos + k) (take (Suc i) xs) = 0xbe0498c88 \<longleftrightarrow> sync_at pos k xs i"
proof -
  let ?R = "reg (pos + k) (take (Suc i) xs)"
  let ?b = "\<lambda>j. bit (fst (xs ! j) XOR snd (xs ! j)) (pos + k)"
  have len: "length (take (Suc i) xs) = Suc i"
    using assms by simp
  have bitR: "bit ?R n \<longleftrightarrow> n < 36 \<and> n \<le> i \<and> ?b (i - n)" for n
    unfolding bit_reg len by (auto simp add: less_Suc_eq_le)
  show ?thesis
  proof
    assume eq: "?R = 0xbe0498c88"
    have "bit ?R 35" unfolding eq bit_magic_word by (rule magic_top)
    then have "35 \<le> i" by (simp add: bitR)
    moreover have "?b (i - t) = bit (0xBE0498C88 :: nat) t" if "t < 36" for t
    proof -
      have "bit ?R t = bit (0xBE0498C88 :: nat) t" unfolding eq bit_magic_word ..
      with that \<open>35 \<le> i\<close> show ?thesis by (simp add: bitR)
    qed
    ultimately show "sync_at pos k xs i" using assms by (simp add: sync_at_def)
  next
    assume s: "sync_at pos k xs i"
    then have i: "35 \<le> i" and bs: "\<And>t. t < 36 \<Longrightarrow> ?b (i - t) = bit (0xBE0498C88 :: nat) t"
      by (simp_all add: sync_at_def)
    show "?R = 0xbe0498c88"
    proof (rule bit_eqI)
      fix n
      show "bit ?R n \<longleftrightarrow> bit (0xbe0498c88 :: u64) n"
      proof (cases "n < 36")
        case True
        have "bit ?R n = ?b (i - n)" using True i by (simp add: bitR)
        also have "\<dots> = bit (0xBE0498C88 :: nat) n" by (rule bs [OF True])
        also have "\<dots> = bit (0xbe0498c88 :: u64) n" by (rule bit_magic_word [symmetric])
        finally show ?thesis .
      next
        case False
        have "\<not> bit ?R n" using False by (simp add: bitR)
        moreover have "\<not> bit (0xbe0498c88 :: u64) n"
          unfolding bit_magic_word using False magic_upper [of n] by blast
        ultimately show ?thesis by simp
      qed
    qed
  qed
qed


lemma find_sync_Cons:
  "find_sync pos (shifted (reg pos ys)) (shifted (reg (pos + 1) ys)) (shifted (reg (pos + 2) ys)) n (s # rest) =
     (if reg pos (ys @ [s]) = 0xbe0498c88 then Some (0, n)
      else if reg (pos + 1) (ys @ [s]) = 0xbe0498c88 then Some (1, n)
      else if reg (pos + 2) (ys @ [s]) = 0xbe0498c88 then Some (2, n)
      else find_sync pos (shifted (reg pos (ys @ [s]))) (shifted (reg (pos + 1) (ys @ [s])))
             (shifted (reg (pos + 2) (ys @ [s]))) (Suc n) rest)"
  by (simp add: reg_snoc Let_def shifted_def plane_bit_def)

lemma all_less_3: "(\<forall>k<3. P k) \<longleftrightarrow> P 0 \<and> P 1 \<and> P (2::nat)"
proof -
  have "k < 3 \<longleftrightarrow> k = 0 \<or> k = 1 \<or> k = 2" for k :: nat by arith
  then show ?thesis by auto
qed

lemma hit_here: "hit pos (ys @ s # rest) (length ys) k \<longleftrightarrow> reg (pos + k) (ys @ [s]) = 0xbe0498c88"
  by (simp add: hit_def)

lemma find_sync_Some:
  "find_sync pos (shifted (reg pos ys)) (shifted (reg (pos + 1) ys)) (shifted (reg (pos + 2) ys))
     (length ys) rest = Some (k, i) \<Longrightarrow> first_hit pos (ys @ rest) (length ys) k i"
proof (induction rest arbitrary: ys)
  case Nil
  then show ?case by simp
next
  case (Cons s rest)
  let ?all = "ys @ s # rest"
  have h: "hit pos ?all (length ys) j \<longleftrightarrow> reg (pos + j) (ys @ [s]) = 0xbe0498c88" for j
    by (rule hit_here)
  note p = Cons.prems [unfolded find_sync_Cons]
  consider (a) "hit pos ?all (length ys) 0"
    | (b) "\<not> hit pos ?all (length ys) 0" "hit pos ?all (length ys) 1"
    | (c) "\<not> hit pos ?all (length ys) 0" "\<not> hit pos ?all (length ys) 1" "hit pos ?all (length ys) 2"
    | (d) "\<not> hit pos ?all (length ys) 0" "\<not> hit pos ?all (length ys) 1" "\<not> hit pos ?all (length ys) 2"
    by blast
  then show ?case
  proof cases
    case a
    with p have "k = 0" "i = length ys" using h [of 0] by simp_all
    with a show ?thesis by (auto simp add: first_hit_def)
  next
    case b
    with p have "k = 1" "i = length ys" using h [of 0] h [of 1] by simp_all
    with b show ?thesis by (auto simp add: first_hit_def)
  next
    case c
    with p have "k = 2" "i = length ys" using h [of 0] h [of 1] h [of 2] by simp_all
    moreover have "k' < 2 \<Longrightarrow> k' = 0 \<or> k' = 1" for k' :: nat by arith
    ultimately show ?thesis using c by (auto simp add: first_hit_def)
  next
    case d
    with p have "find_sync pos (shifted (reg pos (ys @ [s]))) (shifted (reg (pos + 1) (ys @ [s])))
             (shifted (reg (pos + 2) (ys @ [s]))) (length (ys @ [s])) rest = Some (k, i)"
      using h [of 0] h [of 1] h [of 2] by simp
    then have "first_hit pos ((ys @ [s]) @ rest) (length (ys @ [s])) k i" by (rule Cons.IH)
    then have fh: "first_hit pos ?all (Suc (length ys)) k i" by simp
    have "\<forall>k'<3. \<not> hit pos ?all i' k'" if "length ys \<le> i'" "i' < i" for i'
    proof (cases "i' = length ys")
      case True
      with d show ?thesis by (simp add: all_less_3)
    next
      case False
      with that have "Suc (length ys) \<le> i'" by simp
      with fh that show ?thesis unfolding first_hit_def by blast
    qed
    with fh show ?thesis unfolding first_hit_def by auto
  qed
qed

lemma find_sync_None:
  "find_sync pos (shifted (reg pos ys)) (shifted (reg (pos + 1) ys)) (shifted (reg (pos + 2) ys))
     (length ys) rest = None \<Longrightarrow> length ys \<le> i \<Longrightarrow> i < length (ys @ rest) \<Longrightarrow> k < 3 \<Longrightarrow> \<not> hit pos (ys @ rest) i k"
proof (induction rest arbitrary: ys)
  case Nil
  then show ?case by simp
next
  case (Cons s rest)
  let ?all = "ys @ s # rest"
  have h: "hit pos ?all (length ys) j \<longleftrightarrow> reg (pos + j) (ys @ [s]) = 0xbe0498c88" for j
    by (rule hit_here)
  from Cons.prems(1) [unfolded find_sync_Cons]
  have d: "\<not> hit pos ?all (length ys) 0" "\<not> hit pos ?all (length ys) 1" "\<not> hit pos ?all (length ys) 2"
    and rec: "find_sync pos (shifted (reg pos (ys @ [s]))) (shifted (reg (pos + 1) (ys @ [s])))
             (shifted (reg (pos + 2) (ys @ [s]))) (length (ys @ [s])) rest = None"
    using h [of 0] h [of 1] h [of 2] by (simp_all split: if_splits)
  show ?case
  proof (cases "i = length ys")
    case True
    from d have "\<forall>k<3. \<not> hit pos ?all (length ys) k" by (simp add: all_less_3)
    with True Cons.prems(4) show ?thesis by blast
  next
    case False
    with Cons.prems have "length (ys @ [s]) \<le> i" "i < length ((ys @ [s]) @ rest)" by simp_all
    from Cons.IH [OF rec this Cons.prems(4)] show ?thesis by simp
  qed
qed

lemma hit_iff_sync_at: "i < length xs \<Longrightarrow> hit pos xs i k \<longleftrightarrow> sync_at pos k xs i"
  unfolding hit_def by (rule reg_eq_magic)

lemma first_hit_unique:
  assumes "first_hit pos xs lo k i" and "first_hit pos xs lo k' i'"
  shows "k = k' \<and> i = i'"
proof -
  have i: "i = i'"
  proof (rule ccontr)
    assume "i \<noteq> i'"
    then consider "i < i'" | "i' < i" by linarith
    then show False using assms unfolding first_hit_def by cases blast+
  qed
  have "k = k'"
  proof (rule ccontr)
    assume "k \<noteq> k'"
    then consider "k < k'" | "k' < k" by linarith
    then show False using assms i unfolding first_hit_def by cases blast+
  qed
  with i show ?thesis by simp
qed

lemma first_hit_sync_at:
  "first_hit pos xs 0 k i \<longleftrightarrow>
     k < 3 \<and> sync_at pos k xs i \<and> (\<forall>k'<k. \<not> sync_at pos k' xs i)
     \<and> (\<forall>i'<i. \<forall>k'<3. \<not> sync_at pos k' xs i')"
proof (cases "i < length xs")
  case True
  then have "hit pos xs i' j \<longleftrightarrow> sync_at pos j xs i'" if "i' \<le> i" for i' j
    using that by (simp add: hit_iff_sync_at)
  then show ?thesis using True unfolding first_hit_def by auto
next
  case False
  then show ?thesis by (simp add: first_hit_def sync_at_def)
qed

lemma find_sync_iff_first_hit:
  "find_sync pos 0 0 0 0 xs = Some (k, i) \<longleftrightarrow> first_hit pos xs 0 k i"
proof
  assume "find_sync pos 0 0 0 0 xs = Some (k, i)"
  then show "first_hit pos xs 0 k i"
    using find_sync_Some [of pos "[]" xs k i] by (simp add: reg_Nil shifted_0)
next
  assume fh: "first_hit pos xs 0 k i"
  then have *: "i < length xs" "k < 3" "hit pos xs i k" by (simp_all add: first_hit_def)
  have "find_sync pos 0 0 0 0 xs \<noteq> None"
  proof
    assume "find_sync pos 0 0 0 0 xs = None"
    then have "\<not> hit pos xs i k"
      using find_sync_None [of pos "[]" xs i k] * by (simp add: reg_Nil shifted_0)
    with * show False by simp
  qed
  then obtain k' i' where s: "find_sync pos 0 0 0 0 xs = Some (k', i')"
    by (cases "find_sync pos 0 0 0 0 xs") auto
  then have "first_hit pos xs 0 k' i'"
    using find_sync_Some [of pos "[]" xs k' i'] by (simp add: reg_Nil shifted_0)
  with fh have "k = k' \<and> i = i'" by (rule first_hit_unique)
  with s show "find_sync pos 0 0 0 0 xs = Some (k, i)" by simp
qed

text \<open>
  C1. The loop of \<open>detect\<close> leaves through branch \<open>k\<close> at sample index \<open>i\<close> exactly when the
  synchronization constant appears in plane \<open>k\<close> (of the three planes above \<open>pos\<close>) with
  its 36th bit at sample \<open>i\<close>, no plane carries it ending at an earlier sample, and no
  plane below \<open>k\<close> carries it ending at \<open>i\<close>: the first match wins, and on the same
  sample offset 0 wins over 1, which wins over 2. \<open>detect\<close> runs the loop with
  \<open>pos = bps - 16\<close> on the decoded samples.
\<close>

theorem find_sync_first_match:
  "find_sync pos 0 0 0 0 xs = Some (k, i) \<longleftrightarrow>
     k < 3 \<and> sync_at pos k xs i \<and> (\<forall>k'<k. \<not> sync_at pos k' xs i)
     \<and> (\<forall>i'<i. \<forall>k'<3. \<not> sync_at pos k' xs i')"
  by (simp only: find_sync_iff_first_hit first_hit_sync_at)

theorem find_sync_first_match_witness:
  "find_sync 8 0 0 0 0 (sync_samples 0x200) = Some (1, 35)
   \<and> sync_at 8 1 (sync_samples 0x200) 35 \<and> \<not> sync_at 8 0 (sync_samples 0x200) 35
   \<and> find_sync 8 0 0 0 0 (sync_samples 0x300) = Some (0, 35)
   \<and> sync_at 8 0 (sync_samples 0x300) 35"
  using find_sync_first_match [of 8 "sync_samples 0x200" 1 35]
    find_sync_first_match [of 8 "sync_samples 0x300" 0 35]
  by (simp add: sync_samples_def sync_word_bits_def)

section \<open>The decoder\<close>

lemma foldl_comment_fields:
  "error_message (foldl (\<lambda>d comment. if P comment then d\<lparr>mqa_encoder := g comment\<rparr> else d) d cs) = error_message d
   \<and> samples (foldl (\<lambda>d comment. if P comment then d\<lparr>mqa_encoder := g comment\<rparr> else d) d cs) = samples d
   \<and> decoded_samples (foldl (\<lambda>d comment. if P comment then d\<lparr>mqa_encoder := g comment\<rparr> else d) d cs) = decoded_samples d"
  by (induction cs arbitrary: d) simp_all

lemma metadata_callback_fields:
  "error_message (metadata_callback d m) = error_message d
   \<and> samples (metadata_callback d m) = samples d
   \<and> decoded_samples (metadata_callback d m) = decoded_samples d"
  by (cases m) (simp_all add: metadata_callback_def foldl_comment_fields)

lemma foldl_metadata_fields:
  "error_message (foldl metadata_callback d ms) = error_message d
   \<and> samples (foldl metadata_callback d ms) = samples d
   \<and> decoded_samples (foldl metadata_callback d ms) = decoded_samples d"
  by (induction ms arbitrary: d) (simp_all add: metadata_callback_fields)

lemma after_metadata_fields:
  "error_message (after_metadata f) = []" "samples (after_metadata f) = []"
  "decoded_samples (after_metadata f) = 0"
  by (simp_all add: after_metadata_def foldl_metadata_fields MyDecoder_new_def)

lemma decode_ok:
  assumes "init_failure f = None" "reserve_failure f = None"
  shows "decode f MyDecoder_new =
     (case decode_loop (calls f) True (after_metadata f) of (ok, d) \<Rightarrow>
        (Returns (), if \<not> ok \<and> error_message d = []
                     then d\<lparr>error_message := ''Decoding failed: '' @ state_string f\<rparr> else d))"
  using assms by (simp add: decode_def after_metadata_def Let_def split: prod.splits)

lemma report_errors_fields:
  "sample_rate (foldl (\<lambda>d status. error_callback status d) d statuses) = sample_rate d"
  "channels (foldl (\<lambda>d status. error_callback status d) d statuses) = channels d"
  "bps (foldl (\<lambda>d status. error_callback status d) d statuses) = bps d"
  "samples (foldl (\<lambda>d status. error_callback status d) d statuses) = samples d"
  "decoded_samples (foldl (\<lambda>d status. error_callback status d) d statuses) = decoded_samples d"
  "(foldl (\<lambda>d status. error_callback status d) d statuses)\<lparr>error_message := m\<rparr> = d\<lparr>error_message := m\<rparr>"
  by (induction statuses arbitrary: d; simp add: error_callback_def)+

lemma decode_loop_stopped:
  "error_message d \<noteq> [] \<Longrightarrow> decode_loop cs ok d = (ok, d)"
  by (cases cs) simp_all

section \<open>detect and exceptions\<close>

text \<open>
  C10. \<open>detect\<close> never passes an exception to its caller: whatever the \<open>try\<close> block
  throws (the model's sources are a failing \<open>samples.reserve\<close> during decoding and the
  logic error of \<open>OriginalSampleRateDecoder\<close> during scanning), \<open>detect\<close> returns false
  with a non-empty error message.
\<close>

theorem detect_never_throws:
  "fst (detect f this) \<noteq> Throws e
   \<and> (fst (detect_try f this) = Throws e \<longrightarrow>
        fst (detect f this) = Returns False \<and> error_message_m (snd (detect f this)) \<noteq> [])"
proof (cases "detect_try f this")
  case (Pair r st)
  show ?thesis
  proof (cases r)
    case (Returns b)
    with Pair show ?thesis by (simp add: detect_def)
  next
    case (Throws x)
    with Pair show ?thesis by (cases x) (auto simp add: detect_def)
  next
    case Undefined
    with Pair show ?thesis by (simp add: detect_def)
  qed
qed

lemmas stream_defs = stream_of_def mono_no_frames_def two_frames_8Hz_def truncated_after_sync_def
  out_of_memory_def watermarked_def silence_def mono_one_frame_def

lemmas decode_defs = decode_def metadata_callback_def do_process_single_def write_callback_def
  error_callback_def MyDecoder_new_def

theorem detect_never_throws_witness:
  "fst (detect_try out_of_memory MQA_identifier_new) = Throws (Std_exception ''std::bad_alloc'')
   \<and> fst (detect out_of_memory MQA_identifier_new) = Returns False
   \<and> error_message_m (snd (detect out_of_memory MQA_identifier_new)) \<noteq> []"
  using detect_never_throws [of out_of_memory MQA_identifier_new "Std_exception ''std::bad_alloc''"]
  by (simp add: detect_try_def decode_defs stream_defs MQA_identifier_new_def)


lemma unat_ucast_32_64: "unat (ucast (w :: u32) :: u64) = unat w"
proof -
  have "unat w < 2 ^ 32" using unsigned_less [of w, where 'a = nat] by simp
  then have "unat w < 2 ^ 64" by simp
  then show ?thesis by (simp add: unsigned_ucast_eq take_bit_nat_eq_self_iff)
qed

lemma ucast_32_64_less: "a < ucast (w :: u32) \<longleftrightarrow> unat (a :: u64) < unat w"
  by (simp add: word_less_nat_alt unat_ucast_32_64)

section \<open>Unsupported formats\<close>

text \<open>
  The format check sits in \<open>write_callback\<close>, so it is made only when a frame arrives.
  A mono stream without any frame is reported as not watermarked, with no error.
\<close>

theorem unsupported_format_counterexample:
  "channels (after_metadata mono_no_frames) = 1
   \<and> fst (detect mono_no_frames MQA_identifier_new) = Returns False
   \<and> error_message_m (snd (detect mono_no_frames MQA_identifier_new)) = []"
  by (simp add: detect_def detect_try_def decode_defs stream_defs MQA_identifier_new_def after_metadata_def)

lemma decode_loop_unsupported:
  assumes "channels d \<noteq> 2 \<or> (bps d \<noteq> 16 \<and> bps d \<noteq> 24)"
    and "error_message d = []" and "decoded_samples d < ucast (sample_rate d * 3)"
    and "\<forall>c\<in>set pre. is_silent c"
  shows "decode_loop (pre @ Call statuses (Some frame) b # rest) ok d =
           (False, d\<lparr>error_message := ''Unsupported Audio Format: '' @ to_string (unat (channels d))
                        @ '' channels, '' @ to_string (unat (bps d)) @ '' bits''\<rparr>)"
  using assms
proof (induction pre arbitrary: ok)
  case Nil
  then show ?case
    by (simp add: do_process_single_def Let_def write_callback_def decode_loop_stopped report_errors_fields)
next
  case (Cons c pre)
  then obtain b' where "c = Call [] None b'" by (cases c) simp_all
  with Cons show ?case by (simp add: do_process_single_def Let_def)
qed

text \<open>
  C4 (amended). For every stream whose STREAMINFO has \<open>channels \<noteq> 2\<close> or \<open>bps\<close> outside
  16 and 24, whose decoder initialises, whose sample rate is not zero and whose first
  call of \<open>process_single\<close> that invokes a callback delivers an audio frame, that frame
  aborts decoding: \<open>detect\<close> returns false, its error message is
  \<open>Unsupported Audio Format: <channels> channels, <bps> bits\<close>, no sample is stored and
  the scanner does not run, whatever the frames hold.
\<close>

theorem unsupported_format_aborts:
  assumes "init_failure f = None" and "reserve_failure f = None"
    and "channels (after_metadata f) \<noteq> 2 \<or> (bps (after_metadata f) \<noteq> 16 \<and> bps (after_metadata f) \<noteq> 24)"
    and "sample_rate (after_metadata f) * 3 \<noteq> 0"
    and "calls f = pre @ Call statuses (Some frame) b # rest" and "\<forall>c\<in>set pre. is_silent c"
  shows "fst (detect f MQA_identifier_new) = Returns False
    \<and> error_message_m (snd (detect f MQA_identifier_new)) =
        ''Unsupported Audio Format: '' @ to_string (unat (channels (after_metadata f)))
          @ '' channels, '' @ to_string (unat (bps (after_metadata f))) @ '' bits''
    \<and> samples (decoder (snd (detect f MQA_identifier_new))) = []
    \<and> \<not> isMQA_m (snd (detect f MQA_identifier_new))"
proof -
  let ?d = "after_metadata f"
  have lim: "decoded_samples ?d < ucast (sample_rate ?d * 3)"
    using assms(4) by (simp add: ucast_32_64_less after_metadata_fields unat_gt_0)
  have loop: "decode_loop (calls f) True ?d =
      (False, ?d\<lparr>error_message := ''Unsupported Audio Format: '' @ to_string (unat (channels ?d))
                        @ '' channels, '' @ to_string (unat (bps ?d)) @ '' bits''\<rparr>)"
    unfolding assms(5)
    by (rule decode_loop_unsupported [OF assms(3) after_metadata_fields(1) lim assms(6)])
  show ?thesis
    by (simp add: detect_def detect_try_def decode_ok [OF assms(1,2)] loop
        MQA_identifier_new_def after_metadata_fields)
qed

theorem unsupported_format_aborts_witness:
  "fst (detect mono_one_frame MQA_identifier_new) = Returns False
   \<and> error_message_m (snd (detect mono_one_frame MQA_identifier_new)) =
        ''Unsupported Audio Format: 1 channels, 16 bits''
   \<and> samples (decoder (snd (detect mono_one_frame MQA_identifier_new))) = []"
  using unsupported_format_aborts [of mono_one_frame "[]" "[]" "[(0, 0)]" True "[]"]
  by (simp add: stream_defs after_metadata_def metadata_callback_def MyDecoder_new_def to_string.simps)

section \<open>The three-second bound\<close>

text \<open>
  The loop of \<open>decode\<close> tests the bound before each call of \<open>process_single\<close>, and a
  call delivers a whole frame: at 8 Hz the bound is 24 samples, and two frames of 16
  samples are both decoded.
\<close>

theorem three_seconds_counterexample:
  "length (samples (snd (decode two_frames_8Hz MyDecoder_new))) = 32
   \<and> 3 * unat (sample_rate (snd (decode two_frames_8Hz MyDecoder_new))) = 24"
  by (simp add: decode_defs stream_defs)

lemma do_process_single_rate:
  "sample_rate (snd (do_process_single c d)) = sample_rate d"
proof (cases c)
  case (Call statuses frame b)
  then show ?thesis
    by (cases frame) (simp_all add: do_process_single_def Let_def write_callback_def report_errors_fields)
qed

lemma do_process_single_bound:
  assumes "unat (decoded_samples d) = length (samples d)"
    and "decoded_samples d < ucast (sample_rate d * 3)"
    and "block_size_le B c" and "B < 2 ^ 32"
  shows "unat (decoded_samples (snd (do_process_single c d))) = length (samples (snd (do_process_single c d)))
       \<and> length (samples (snd (do_process_single c d))) < unat (sample_rate d * 3) + B"
proof (cases c)
  case (Call statuses fr b)
  let ?e = "foldl (\<lambda>d status. error_callback status d) d statuses"
  have lt: "length (samples d) < unat (sample_rate d * 3)"
    using assms(1,2) by (simp add: ucast_32_64_less)
  show ?thesis
  proof (cases fr)
    case None
    with Call assms(1) lt show ?thesis
      by (simp add: do_process_single_def Let_def report_errors_fields)
  next
    case (Some frame)
    have "unat (sample_rate d * 3) < 2 ^ 32"
      using unsigned_less [of "sample_rate d * 3", where 'a = nat] by simp
    with lt assms(3,4) Call Some have small: "length (samples d) + length frame < 2 ^ 64"
      by simp
    have fr: "unat (word_of_nat (length frame) :: u64) = length frame"
      using small by (simp add: unat_of_nat)
    have "unat (decoded_samples d + word_of_nat (length frame)) = length (samples d) + length frame"
      using small assms(1) fr unat_add_lem [of "decoded_samples d" "word_of_nat (length frame) :: u64"]
      by simp
    with lt assms(3) Call Some show ?thesis
      by (auto simp add: do_process_single_def Let_def write_callback_def assms(1) report_errors_fields)
  qed
qed

lemma decode_loop_bound:
  assumes "unat (decoded_samples d) = length (samples d)"
    and "length (samples d) < unat (sample_rate d * 3) + B"
    and "\<forall>c\<in>set cs. block_size_le B c" and "B < 2 ^ 32"
  shows "length (samples (snd (decode_loop cs ok d))) < unat (sample_rate d * 3) + B
       \<and> sample_rate (snd (decode_loop cs ok d)) = sample_rate d"
  using assms
proof (induction cs arbitrary: ok d)
  case Nil
  then show ?case by simp
next
  case (Cons c cs)
  show ?case
  proof (cases "decoded_samples d < ucast (sample_rate d * 3) \<and> error_message d = []")
    case True
    obtain ok' d' where step: "do_process_single c d = (ok', d')" by (cases "do_process_single c d")
    have b: "block_size_le B c" using Cons.prems(3) by simp
    from do_process_single_bound [OF Cons.prems(1) _ b Cons.prems(4)] True step
    have inv: "unat (decoded_samples d') = length (samples d')"
      "length (samples d') < unat (sample_rate d * 3) + B" by simp_all
    have rate: "sample_rate d' = sample_rate d"
      using do_process_single_rate [of c d] step by simp
    have "length (samples (snd (decode_loop cs ok' d'))) < unat (sample_rate d' * 3) + B
       \<and> sample_rate (snd (decode_loop cs ok' d')) = sample_rate d'"
      using inv Cons.prems(3,4) by (intro Cons.IH) (simp_all add: rate)
    with True step rate show ?thesis by simp
  next
    case False
    with Cons.prems show ?thesis by auto
  qed
qed

lemma unat_times_3_le: "unat (r * 3 :: u32) \<le> 3 * unat r"
  by (simp add: unat_word_ariths)


lemma decode_snd_cases:
  obtains (stopped) d where "snd (decode f MyDecoder_new) = d" "samples d = []"
  | (looped) ok0 d1 ok d where "samples d1 = []" "decoded_samples d1 = 0"
      "decode_loop (calls f) ok0 d1 = (ok, d)"
      "snd (decode f MyDecoder_new) = d \<or> (\<exists>m. snd (decode f MyDecoder_new) = d\<lparr>error_message := m\<rparr>)"
proof (cases "reserve_failure f")
  case (Some w)
  have "samples (snd (decode f MyDecoder_new)) = []"
    using Some
    by (cases "init_failure f") (simp_all add: decode_def foldl_metadata_fields MyDecoder_new_def)
  then show ?thesis using stopped by blast
next
  case None
  define d0 where "d0 = (case init_failure f of
        Some s \<Rightarrow> MyDecoder_new\<lparr>error_message := ''Initializing decoder failed: '' @ s\<rparr>
      | None \<Rightarrow> MyDecoder_new)"
  define ok0 where "ok0 = (init_failure f = None)"
  define d1 where "d1 = foldl metadata_callback d0 (if init_failure f = None then metadata_blocks f else [])"
  obtain ok d where loop: "decode_loop (calls f) ok0 d1 = (ok, d)"
    by (cases "decode_loop (calls f) ok0 d1")
  have s1: "samples d1 = []" "decoded_samples d1 = 0"
    by (cases "init_failure f"; simp add: d1_def d0_def foldl_metadata_fields MyDecoder_new_def)+
  have "snd (decode f MyDecoder_new) =
      (if \<not> ok \<and> error_message d = []
       then d\<lparr>error_message := ''Decoding failed: '' @ state_string f\<rparr> else d)"
    using None loop
    by (cases "init_failure f") (simp_all add: decode_def d1_def d0_def ok0_def)
  then have "snd (decode f MyDecoder_new) = d \<or> (\<exists>m. snd (decode f MyDecoder_new) = d\<lparr>error_message := m\<rparr>)"
    by auto
  with s1 loop show ?thesis using looped by blast
qed

text \<open>
  C6 (amended). The bound of \<open>sample_rate * 3\<close> samples is checked between frames only:
  when every frame of the stream holds at most \<open>B\<close> samples, the decoded sequence, which
  is the one the scanner runs over, holds fewer than \<open>3 * sample_rate + B\<close> sample pairs.
\<close>

theorem decode_three_seconds_and_a_frame:
  assumes "\<forall>c\<in>set (calls f). block_size_le B c" and "0 < B" and "B < 2 ^ 32"
  shows "length (samples (snd (decode f MyDecoder_new)))
           < 3 * unat (sample_rate (snd (decode f MyDecoder_new))) + B"
proof (cases f rule: decode_snd_cases)
  case (stopped d)
  with assms(2) show ?thesis by simp
next
  case (looped ok0 d1 ok d)
  have "length (samples (snd (decode_loop (calls f) ok0 d1))) < unat (sample_rate d1 * 3) + B
       \<and> sample_rate (snd (decode_loop (calls f) ok0 d1)) = sample_rate d1"
    using looped(1,2) assms by (intro decode_loop_bound) simp_all
  then have "length (samples d) < unat (sample_rate d * 3) + B"
    using looped(3) by simp
  also have "\<dots> \<le> 3 * unat (sample_rate d) + B"
    using unat_times_3_le [of "sample_rate d"] by simp
  finally show ?thesis using looped(4) by auto
qed

theorem decode_three_seconds_and_a_frame_witness:
  "length (samples (snd (decode two_frames_8Hz MyDecoder_new)))
     < 3 * unat (sample_rate (snd (decode two_frames_8Hz MyDecoder_new))) + 16"
  by (rule decode_three_seconds_and_a_frame) (simp_all add: stream_defs)

section \<open>Streams without the watermark\<close>

lemma decode_loop_clean:
  assumes "error_message d = []" and "channels d = 2" and "bps d = 16 \<or> bps d = 24"
    and "\<forall>c\<in>set cs. clean_call c" and "ok"
  shows "fst (decode_loop cs ok d) \<and> error_message (snd (decode_loop cs ok d)) = []
       \<and> bps (snd (decode_loop cs ok d)) = bps d"
  using assms
proof (induction cs arbitrary: ok d)
  case Nil
  then show ?case by simp
next
  case (Cons c cs)
  show ?case
  proof (cases "decoded_samples d < ucast (sample_rate d * 3) \<and> error_message d = []")
    case True
    obtain ok' d' where step: "do_process_single c d = (ok', d')" by (cases "do_process_single c d")
    have "clean_call c" using Cons.prems(4) by simp
    then obtain fr b where c: "c = Call [] fr b" "fr \<noteq> None \<or> b"
      by (cases c) simp_all
    have d': "ok'" "error_message d' = []" "channels d' = 2" "bps d' = bps d"
      using step c Cons.prems(1,2,3)
      by (cases fr; auto simp add: do_process_single_def Let_def write_callback_def)+
    have "fst (decode_loop cs ok' d') \<and> error_message (snd (decode_loop cs ok' d')) = []
       \<and> bps (snd (decode_loop cs ok' d')) = bps d'"
      using d' Cons.prems(3,4) by (intro Cons.IH) simp_all
    with True step d' show ?thesis by simp
  next
    case False
    with Cons.prems show ?thesis by auto
  qed
qed

lemma find_sync_None_iff:
  "find_sync pos 0 0 0 0 xs = None \<longleftrightarrow> (\<forall>i k. k < 3 \<longrightarrow> \<not> sync_at pos k xs i)"
proof
  assume n: "find_sync pos 0 0 0 0 xs = None"
  show "\<forall>i k. k < 3 \<longrightarrow> \<not> sync_at pos k xs i"
  proof (intro allI impI)
    fix i k :: nat
    assume k: "k < 3"
    show "\<not> sync_at pos k xs i"
    proof (cases "i < length xs")
      case True
      then have "\<not> hit pos xs i k"
        using find_sync_None [of pos "[]" xs i k] n k by (simp add: reg_Nil shifted_0)
      with True show ?thesis by (simp add: hit_iff_sync_at)
    next
      case False
      then show ?thesis by (simp add: sync_at_def)
    qed
  qed
next
  assume a: "\<forall>i k. k < 3 \<longrightarrow> \<not> sync_at pos k xs i"
  show "find_sync pos 0 0 0 0 xs = None"
  proof (cases "find_sync pos 0 0 0 0 xs")
    case None
    then show ?thesis .
  next
    case (Some ki)
    then obtain k i where "find_sync pos 0 0 0 0 xs = Some (k, i)" by (cases ki) simp
    then have "first_hit pos xs 0 k i" by (simp add: find_sync_iff_first_hit)
    then have "k < 3" "sync_at pos k xs i" by (simp_all add: first_hit_sync_at)
    with a show ?thesis by blast
  qed
qed

text \<open>
  C5. For every stream with two channels and 16 or 24 bits per sample that decodes
  without error (the decoder initialises, the sample vector is allocated, and every
  call of \<open>process_single\<close> delivers a frame or succeeds quietly), and whose decoded
  samples carry the synchronization constant in none of the three planes, \<open>detect\<close>
  returns false with an empty error message and \<open>isMQA\<close> false.
\<close>

theorem no_watermark_is_no_error:
  assumes "init_failure f = None" and "reserve_failure f = None"
    and "\<forall>c\<in>set (calls f). clean_call c"
    and "channels (after_metadata f) = 2"
    and "bps (after_metadata f) = 16 \<or> bps (after_metadata f) = 24"
    and "\<forall>i k. k < 3 \<longrightarrow>
           \<not> sync_at (unat (bps (after_metadata f) - 16)) k (samples (snd (decode f MyDecoder_new))) i"
  shows "fst (detect f MQA_identifier_new) = Returns False
       \<and> error_message_m (snd (detect f MQA_identifier_new)) = []
       \<and> \<not> isMQA_m (snd (detect f MQA_identifier_new))"
proof -
  let ?d0 = "after_metadata f"
  obtain ok d where loop: "decode_loop (calls f) True ?d0 = (ok, d)"
    by (cases "decode_loop (calls f) True ?d0")
  from decode_loop_clean [OF after_metadata_fields(1) assms(4,5,3), of True] loop
  have d: "ok" "error_message d = []" "bps d = bps ?d0" by simp_all
  have dec: "decode f MyDecoder_new = (Returns (), d)"
    using loop d by (simp add: decode_ok [OF assms(1,2)])
  have pos: "unat (bps d - 16) < 30"
    using assms(5) d(3) by auto
  have none: "find_sync (unat (bps d - 16)) 0 0 0 0 (samples d) = None"
    using assms(6) by (simp add: find_sync_None_iff dec d(3))
  show ?thesis
    using pos by (simp add: detect_def detect_try_def dec d(2) none MQA_identifier_new_def)
qed

lemma silence_no_sync: "\<not> sync_at pos k (replicate n (0, 0)) i"
proof
  assume "sync_at pos k (replicate n (0, 0)) i"
  then have i: "35 \<le> i" "i < n"
    and b: "\<forall>t\<in>{0..<36}. bit (fst (replicate n (0 :: u32, 0 :: u32) ! (i - t))
        XOR snd (replicate n (0 :: u32, 0 :: u32) ! (i - t))) (pos + k) = bit (0xBE0498C88 :: nat) t"
    by (simp_all add: sync_at_def)
  have "(35 :: nat) \<in> {0..<36}" by simp
  with b have "bit (fst (replicate n (0 :: u32, 0 :: u32) ! (i - 35))
        XOR snd (replicate n (0 :: u32, 0 :: u32) ! (i - 35))) (pos + k) = bit (0xBE0498C88 :: nat) 35"
    by (rule bspec)
  moreover have "replicate n (0 :: u32, 0 :: u32) ! (i - 35) = (0, 0)"
    using i by simp
  ultimately have "\<not> bit (0xBE0498C88 :: nat) 35" by simp
  with magic_top show False by blast
qed

theorem no_watermark_is_no_error_witness:
  "fst (detect silence MQA_identifier_new) = Returns False
       \<and> error_message_m (snd (detect silence MQA_identifier_new)) = []
       \<and> \<not> isMQA_m (snd (detect silence MQA_identifier_new))"
  by (rule no_watermark_is_no_error)
     (simp_all add: stream_defs after_metadata_def decode_defs silence_no_sync)

section \<open>A match at the end of the samples\<close>

text \<open>
  C2. The claim asks for a graceful failure when fewer than 33 samples follow the match.
  The branches of \<open>detect\<close> read \<open>*(&s + m)\<close> for \<open>m\<close> up to 33 without comparing with the
  vector's size: on a stream that ends with the last bit of the sync word (match at
  index 35 of 36 samples) the read at index 38 is outside the vector, and the
  behaviour of \<open>detect\<close> is undefined.
\<close>

theorem truncated_after_sync_undefined:
  "find_sync 0 0 0 0 0 (sync_samples 1) = Some (0, 35)
   \<and> length (sync_samples 1) = 36
   \<and> fst (detect truncated_after_sync MQA_identifier_new) = Undefined"
  by (simp add: detect_def detect_try_def decode_defs stream_defs MQA_identifier_new_def
      sync_samples_def sync_word_bits_def on_match_def)

section \<open>Tagging\<close>

lemma find_entry_from_none:
  "find_entry_from 0 field_name es = - 1 \<longleftrightarrow> (\<forall>e\<in>set es. \<not> entry_matches e field_name)"
proof -
  have "find (\<lambda>i. entry_matches (es ! i) field_name) [0..<length es] = None
        \<longleftrightarrow> (\<forall>e\<in>set es. \<not> entry_matches e field_name)"
    by (simp add: find_None_iff all_set_conv_all_nth)
  then show ?thesis
    by (auto simp add: find_entry_from_def split: option.splits)
qed

lemma matches_encoder: "entry_matches (Entry ''MQAENCODER'' v) ''MQAENCODER''"
  by (simp add: entry_matches_def Entry_def)

lemma matches_rate: "entry_matches (Entry ''ORIGINALSAMPLERATE'' v) ''ORIGINALSAMPLERATE''"
  by (simp add: entry_matches_def Entry_def)

lemma encoder_is_not_rate: "\<not> entry_matches (Entry ''MQAENCODER'' v) ''ORIGINALSAMPLERATE''"
  by (simp add: entry_matches_def Entry_def)

lemma rate_is_not_encoder: "\<not> entry_matches (Entry ''ORIGINALSAMPLERATE'' v) ''MQAENCODER''"
  by (simp add: entry_matches_def Entry_def)

lemmas tag_facts = find_entry_from_none matches_encoder matches_rate encoder_is_not_rate
  rate_is_not_encoder

lemma add_tags_idem: "add_tags r (add_tags r es) = add_tags r es"
  by (auto simp add: add_tags_def Let_def tag_facts)

lemma add_tags_tagged:
  "\<exists>e\<in>set es. entry_matches e ''MQAENCODER'' \<Longrightarrow>
   (0 < r \<longrightarrow> (\<exists>e\<in>set es. entry_matches e ''ORIGINALSAMPLERATE'')) \<Longrightarrow> add_tags r es = es"
  by (auto simp add: add_tags_def Let_def tag_facts)

lemma add_tags_not_Nil: "add_tags r [] \<noteq> []"
  by (simp add: add_tags_def Let_def tag_facts)

lemma count_encoder:
  "length (filter (\<lambda>e. entry_matches e ''MQAENCODER'') (add_tags r es)) =
     max 1 (length (filter (\<lambda>e. entry_matches e ''MQAENCODER'') es))"
  by (auto simp add: add_tags_def Let_def tag_facts filter_empty_conv max_def Suc_le_eq)

lemma count_rate:
  "length (filter (\<lambda>e. entry_matches e ''ORIGINALSAMPLERATE'') (add_tags r es)) =
     (if 0 < r then max 1 (length (filter (\<lambda>e. entry_matches e ''ORIGINALSAMPLERATE'') es))
      else length (filter (\<lambda>e. entry_matches e ''ORIGINALSAMPLERATE'') es))"
  by (auto simp add: add_tags_def Let_def tag_facts filter_empty_conv max_def Suc_le_eq)


lemma find_vorbis_update:
  "find_vorbis bs k = Some (n, es) \<Longrightarrow>
   find_vorbis (bs[n - k := VorbisComment es']) k = Some (n, es') \<and> k \<le> n"
proof (induction bs k rule: find_vorbis.induct)
  case (1 n)
  then show ?case by simp
next
  case (2 es bs n)
  then show ?case by simp
next
  case (3 bs k)
  then have "find_vorbis (bs[n - Suc k := VorbisComment es']) (Suc k) = Some (n, es') \<and> Suc k \<le> n"
    by simp
  then have "find_vorbis (bs[n - Suc k := VorbisComment es']) (Suc k) = Some (n, es')"
    and "n - k = Suc (n - Suc k)" and "k \<le> n"
    by (simp, arith, simp)
  then show ?case by simp
qed

lemma find_vorbis_append:
  "find_vorbis bs k = None \<Longrightarrow> find_vorbis (bs @ [VorbisComment es']) k = Some (k + length bs, es')"
  by (induction bs k rule: find_vorbis.induct) simp_all

lemma dry_run_log_skip: "dry_run (log_skip p reason g) = dry_run g"
  by (simp add: log_skip_def)

lemma tagFile_snd:
  "snd (tagFile file r g) =
     (if dry_run g \<or> \<not> read_ok file then file
      else case find_vorbis (blocks file) 0 of
             Some (n, es) \<Rightarrow>
               if add_tags r es \<noteq> es \<and> write_ok file
               then file\<lparr>blocks := (blocks file)[n := VorbisComment (add_tags r es)]\<rparr> else file
           | None \<Rightarrow>
               if insert_ok file \<and> write_ok file
               then file\<lparr>blocks := blocks file @ [VorbisComment (add_tags r [])]\<rparr> else file)"
proof (cases "dry_run g \<or> \<not> read_ok file")
  case True
  then show ?thesis by (auto simp add: tagFile_def Let_def)
next
  case False
  show ?thesis
  proof (cases "find_vorbis (blocks file) 0")
    case None
    with False show ?thesis
      by (simp add: tagFile_def add_tags_def Let_def find_entry_from_none)
  next
    case (Some a)
    then obtain n es where "find_vorbis (blocks file) 0 = Some (n, es)" by (cases a) simp
    with False show ?thesis
      by (simp add: tagFile_def add_tags_def Let_def)
  qed
qed

lemma dry_run_tagFile: "dry_run (fst (tagFile file r g)) = dry_run g"
proof (cases "dry_run g \<or> \<not> read_ok file")
  case True
  then show ?thesis by (auto simp add: tagFile_def Let_def dry_run_log_skip)
next
  case False
  show ?thesis
  proof (cases "find_vorbis (blocks file) 0")
    case None
    with False show ?thesis
      by (simp add: tagFile_def Let_def dry_run_log_skip)
  next
    case (Some a)
    then obtain n es where "find_vorbis (blocks file) 0 = Some (n, es)" by (cases a) simp
    with False show ?thesis
      by (simp add: tagFile_def Let_def dry_run_log_skip)
  qed
qed

lemma tagFile_entries:
  "vorbis_entries (snd (tagFile file r g)) = vorbis_entries file
   \<or> vorbis_entries (snd (tagFile file r g)) = add_tags r (vorbis_entries file)"
proof (cases "find_vorbis (blocks file) 0")
  case None
  then show ?thesis
    by (simp add: tagFile_snd vorbis_entries_def find_vorbis_append)
next
  case (Some a)
  then obtain n es where f: "find_vorbis (blocks file) 0 = Some (n, es)" by (cases a) simp
  from find_vorbis_update [OF f, of "add_tags r es"]
  have "find_vorbis ((blocks file)[n := VorbisComment (add_tags r es)]) 0 = Some (n, add_tags r es)"
    by simp
  with f show ?thesis by (simp add: tagFile_snd vorbis_entries_def)
qed

lemma tagFile_again:
  assumes "dry_run g' = dry_run g"
  shows "snd (tagFile (snd (tagFile file r g)) r g') = snd (tagFile file r g)"
proof (cases "find_vorbis (blocks file) 0")
  case None
  then show ?thesis
    using assms by (simp add: tagFile_snd find_vorbis_append add_tags_idem)
next
  case (Some a)
  then obtain n es where f: "find_vorbis (blocks file) 0 = Some (n, es)" by (cases a) simp
  from find_vorbis_update [OF f, of "add_tags r es"]
  have "find_vorbis ((blocks file)[n := VorbisComment (add_tags r es)]) 0 = Some (n, add_tags r es)"
    by simp
  with f show ?thesis
    using assms by (simp add: tagFile_snd add_tags_idem)
qed

lemma tagFile_tagged:
  assumes "0 < tag_count ''MQAENCODER'' file"
    and "0 < r \<longrightarrow> 0 < tag_count ''ORIGINALSAMPLERATE'' file"
  shows "snd (tagFile file r g) = file"
proof (cases "find_vorbis (blocks file) 0")
  case None
  with assms(1) show ?thesis by (simp add: tag_count_def vorbis_entries_def)
next
  case (Some a)
  then obtain n es where f: "find_vorbis (blocks file) 0 = Some (n, es)" by (cases a) simp
  have "\<exists>e\<in>set es. entry_matches e ''MQAENCODER''"
    using assms(1) f by (auto simp add: tag_count_def vorbis_entries_def filter_empty_conv)
  moreover have "0 < r \<longrightarrow> (\<exists>e\<in>set es. entry_matches e ''ORIGINALSAMPLERATE'')"
    using assms(2) f by (auto simp add: tag_count_def vorbis_entries_def filter_empty_conv)
  ultimately have "add_tags r es = es" by (rule add_tags_tagged)
  with f show ?thesis by (simp add: tagFile_snd)
qed

text \<open>
  C8. \<open>tagFile\<close> is idempotent. On a file whose comment block already holds an
  MQAENCODER entry and, when \<open>original_rate > 0\<close>, an ORIGINALSAMPLERATE entry, it leaves
  the file as it is; a second invocation after a first never changes the file again;
  neither tag is ever duplicated (a tag that was absent is there at most once
  afterwards, a tag that was present keeps its count); and with \<open>original_rate = 0\<close> no
  ORIGINALSAMPLERATE entry is added.
\<close>

theorem tagFile_idempotent:
  "(0 < tag_count ''MQAENCODER'' file
      \<and> (0 < original_rate \<longrightarrow> 0 < tag_count ''ORIGINALSAMPLERATE'' file)
      \<longrightarrow> snd (tagFile file original_rate g) = file)
   \<and> snd (tagFile (snd (tagFile file original_rate g)) original_rate (fst (tagFile file original_rate g)))
       = snd (tagFile file original_rate g)
   \<and> tag_count ''MQAENCODER'' (snd (tagFile file original_rate g)) \<le> max 1 (tag_count ''MQAENCODER'' file)
   \<and> tag_count ''ORIGINALSAMPLERATE'' (snd (tagFile file original_rate g))
       \<le> max 1 (tag_count ''ORIGINALSAMPLERATE'' file)
   \<and> (original_rate = 0 \<longrightarrow>
        tag_count ''ORIGINALSAMPLERATE'' (snd (tagFile file original_rate g))
          = tag_count ''ORIGINALSAMPLERATE'' file)"
proof (intro conjI impI)
  assume "0 < tag_count ''MQAENCODER'' file
      \<and> (0 < original_rate \<longrightarrow> 0 < tag_count ''ORIGINALSAMPLERATE'' file)"
  then show "snd (tagFile file original_rate g) = file"
    by (intro tagFile_tagged) simp_all
next
  show "snd (tagFile (snd (tagFile file original_rate g)) original_rate (fst (tagFile file original_rate g)))
       = snd (tagFile file original_rate g)"
    by (rule tagFile_again) (rule dry_run_tagFile)
next
  show "tag_count ''MQAENCODER'' (snd (tagFile file original_rate g)) \<le> max 1 (tag_count ''MQAENCODER'' file)"
    using tagFile_entries [of "file" original_rate g]
    by (auto simp add: tag_count_def count_encoder)
next
  show "tag_count ''ORIGINALSAMPLERATE'' (snd (tagFile file original_rate g))
       \<le> max 1 (tag_count ''ORIGINALSAMPLERATE'' file)"
    using tagFile_entries [of "file" original_rate g]
    by (auto simp add: tag_count_def count_rate)
next
  assume "original_rate = 0"
  then show "tag_count ''ORIGINALSAMPLERATE'' (snd (tagFile file original_rate g))
          = tag_count ''ORIGINALSAMPLERATE'' file"
    using tagFile_entries [of "file" original_rate g]
    by (auto simp add: tag_count_def count_rate)
qed

theorem tagFile_idempotent_witness:
  "0 < tag_count ''MQAENCODER'' tagged_file \<and> 0 < tag_count ''ORIGINALSAMPLERATE'' tagged_file
   \<and> snd (tagFile tagged_file 44100 globals_start) = tagged_file
   \<and> tag_count ''ORIGINALSAMPLERATE'' negative_file = 0
   \<and> tag_count ''ORIGINALSAMPLERATE'' (snd (tagFile negative_file 0 globals_start)) = 0"
  using tagFile_idempotent [of tagged_file 44100 globals_start]
    tagFile_idempotent [of negative_file 0 globals_start]
  by (simp add: tag_count_def vorbis_entries_def tagged_file_def negative_file_def file_of_def
      entry_matches_def tolower_def)

section \<open>The counters\<close>

lemma log_skip_counts:
  "scanned_count (log_skip p reason g) = scanned_count g"
  "mqa_count (log_skip p reason g) = mqa_count g"
  by (simp_all add: log_skip_def)

lemma tagFile_counts:
  "scanned_count (fst (tagFile file r g)) = scanned_count g \<and> mqa_count (fst (tagFile file r g)) = mqa_count g"
proof (cases "dry_run g \<or> \<not> read_ok file")
  case True
  then show ?thesis by (auto simp add: tagFile_def Let_def log_skip_counts)
next
  case False
  show ?thesis
  proof (cases "find_vorbis (blocks file) 0")
    case None
    with False show ?thesis
      by (simp add: tagFile_def Let_def log_skip_counts)
  next
    case (Some a)
    then obtain n es where "find_vorbis (blocks file) 0 = Some (n, es)" by (cases a) simp
    with False show ?thesis
      by (simp add: tagFile_def Let_def log_skip_counts)
  qed
qed

lemma processFile_task:
  "fst (processFile file index g) \<noteq> Throws e
   \<and> (fst (processFile file index g) = Returns () \<longrightarrow>
        scanned_count (fst (snd (processFile file index g))) = scanned_count g + 1
        \<and> mqa_count (fst (snd (processFile file index g)))
            = (if positive_detection file then mqa_count g + 1 else mqa_count g))"
proof (cases "openable file \<and> 4 \<le> length (first_bytes file) \<and> take 4 (first_bytes file) = ''fLaC''")
  case False
  then show ?thesis
    by (auto simp add: processFile_def Let_def count_scanned_def log_skip_counts positive_detection_def)
next
  case valid: True
  show ?thesis
  proof (cases "ctor_failure file")
    case (Some x)
    with valid show ?thesis
      by (cases x) (simp_all add: processFile_def Let_def count_scanned_def log_skip_counts positive_detection_def)
  next
    case None
    obtain r ident where d: "detect (flac file) MQA_identifier_new = (r, ident)"
      by (cases "detect (flac file) MQA_identifier_new")
    show ?thesis
    proof (cases r)
      case (Returns detected)
      obtain g1 file1 where t: "tagFile file (original_sample_rate (decoder ident)) g = (g1, file1)"
        by (cases "tagFile file (original_sample_rate (decoder ident)) g")
      then have "scanned_count g1 = scanned_count g" "mqa_count g1 = mqa_count g"
        using tagFile_counts [of "file" "original_sample_rate (decoder ident)" g] by simp_all
      with valid None d Returns t show ?thesis
        by (simp add: processFile_def Let_def count_scanned_def log_skip_counts positive_detection_def)
    next
      case (Throws x)
      with valid None d show ?thesis
        by (cases x) (simp_all add: processFile_def Let_def count_scanned_def log_skip_counts positive_detection_def)
    next
      case Undefined
      with valid None d show ?thesis
        by (simp add: processFile_def Let_def)
    qed
  qed
qed


lemma process_all_counts:
  "fst (process_all files count g) = Returns () \<Longrightarrow>
     scanned_count (fst (snd (process_all files count g))) = scanned_count g + of_nat (length files)
     \<and> mqa_count (fst (snd (process_all files count g)))
         = mqa_count g + of_nat (length (filter positive_detection files))"
proof (induction files arbitrary: count g)
  case Nil
  then show ?case by simp
next
  case (Cons f fs)
  obtain r g1 file1 where p: "processFile f (Suc count) g = (r, g1, file1)"
    by (cases "processFile f (Suc count) g")
  obtain r' g2 files2 where q: "process_all fs (Suc count) g1 = (r', g2, files2)"
    by (cases "process_all fs (Suc count) g1")
  have r: "r = Returns ()"
  proof (cases r)
    case (Returns u)
    then show ?thesis by simp
  next
    case (Throws x)
    with p processFile_task [of f "Suc count" g x] show ?thesis by simp
  next
    case Undefined
    with p Cons.prems show ?thesis by simp
  qed
  have r': "r' = Returns ()"
    using Cons.prems p q r by simp
  from processFile_task [of f "Suc count" g] p r
  have one: "scanned_count g1 = scanned_count g + 1"
    "mqa_count g1 = (if positive_detection f then mqa_count g + 1 else mqa_count g)"
    by simp_all
  from Cons.IH [of "Suc count" g1] q r'
  have rest: "scanned_count g2 = scanned_count g1 + of_nat (length fs)"
    "mqa_count g2 = mqa_count g1 + of_nat (length (filter positive_detection fs))"
    by simp_all
  from p q r one rest show ?case by simp
qed

lemma processFile_returns:
  assumes "\<not> runs_into_undefined file"
  shows "fst (processFile file index g) = Returns ()"
proof (cases "openable file \<and> 4 \<le> length (first_bytes file) \<and> take 4 (first_bytes file) = ''fLaC''")
  case False
  then show ?thesis
    by (auto simp add: processFile_def Let_def)
next
  case valid: True
  show ?thesis
  proof (cases "ctor_failure file")
    case (Some x)
    with valid show ?thesis
      by (cases x) (simp_all add: processFile_def Let_def)
  next
    case None
    obtain r ident where d: "detect (flac file) MQA_identifier_new = (r, ident)"
      by (cases "detect (flac file) MQA_identifier_new")
    show ?thesis
    proof (cases r)
      case (Returns detected)
      with valid None d show ?thesis
        by (simp add: processFile_def Let_def split: prod.splits)
    next
      case (Throws x)
      with valid None d show ?thesis
        by (cases x) (simp_all add: processFile_def Let_def)
    next
      case Undefined
      with valid None d assms show ?thesis by (simp add: runs_into_undefined_def)
    qed
  qed
qed

lemma process_all_returns:
  "\<forall>f\<in>set files. \<not> runs_into_undefined f \<Longrightarrow>
   fst (process_all files count g) = Returns ()"
proof (induction files arbitrary: count g)
  case Nil
  then show ?case by simp
next
  case (Cons f fs)
  obtain r g1 file1 where p: "processFile f (Suc count) g = (r, g1, file1)"
    by (cases "processFile f (Suc count) g")
  have r: "r = Returns ()"
    using processFile_returns [of f "Suc count" g] Cons.prems p by simp
  obtain r' g2 files2 where q: "process_all fs (Suc count) g1 = (r', g2, files2)"
    by (cases "process_all fs (Suc count) g1")
  have "fst (process_all fs (Suc count) g1) = Returns ()"
    using Cons.prems by (intro Cons.IH) simp
  with p q r show ?case by simp
qed

lemma detect_examples:
  "fst (detect watermarked MQA_identifier_new) = Returns True"
  "fst (detect silence MQA_identifier_new) = Returns False"
  "fst (detect mono_no_frames MQA_identifier_new) = Returns False"
  by code_simp+

lemma positive_files:
  "positive_detection positive_file" "\<not> positive_detection negative_file"
  "\<not> positive_detection text_file"
  by (simp_all add: positive_detection_def positive_file_def negative_file_def text_file_def
      file_of_def detect_examples)

lemma defined_files:
  "\<not> runs_into_undefined positive_file" "\<not> runs_into_undefined negative_file"
  "\<not> runs_into_undefined text_file"
  by (simp_all add: runs_into_undefined_def positive_file_def negative_file_def text_file_def
      file_of_def detect_examples)

text \<open>
  C7. A task never throws. Unless it runs into the undefined behaviour of \<open>detect\<close> (on
  a file that has passed the header check and for which the identifier was
  constructed), it returns, and it has then incremented \<open>scanned_count\<close> exactly once,
  whatever its outcome: header rejected, file unreadable, constructor or \<open>detect\<close>
  throwing, decode error, not detected, detected; and it has incremented \<open>mqa_count\<close>
  exactly once when its outcome is a positive detection and not at all otherwise. So a
  run over files none of which runs into undefined behaviour returns, with
  \<open>scanned_count\<close> raised by the number of files and \<open>mqa_count\<close> by the number of
  positive detections; the run over a watermarked file, a file without watermark and a
  text file ends with 3 and 1.
\<close>

theorem processFile_counts:
  "fst (processFile file index g) \<noteq> Throws e
   \<and> (\<not> runs_into_undefined file \<longrightarrow>
        fst (processFile file index g) = Returns ()
        \<and> scanned_count (fst (snd (processFile file index g))) = scanned_count g + 1
        \<and> mqa_count (fst (snd (processFile file index g)))
            = (if positive_detection file then mqa_count g + 1 else mqa_count g))
   \<and> ((\<forall>f\<in>set files. \<not> runs_into_undefined f) \<longrightarrow>
        fst (process_all files count g) = Returns ()
        \<and> scanned_count (fst (snd (process_all files count g))) = scanned_count g + of_nat (length files)
        \<and> mqa_count (fst (snd (process_all files count g)))
            = mqa_count g + of_nat (length (filter positive_detection files)))
   \<and> fst (process_all [positive_file, negative_file, text_file] 0 globals_start) = Returns ()
   \<and> scanned_count (fst (snd (process_all [positive_file, negative_file, text_file] 0 globals_start))) = 3
   \<and> mqa_count (fst (snd (process_all [positive_file, negative_file, text_file] 0 globals_start))) = 1"
proof -
  let ?run = "process_all [positive_file, negative_file, text_file] 0 globals_start"
  have ex: "fst ?run = Returns ()"
    by (rule process_all_returns) (simp add: defined_files)
  from process_all_counts [OF ex]
  have three: "scanned_count (fst (snd ?run)) = 3" "mqa_count (fst (snd ?run)) = 1"
    by (simp_all add: positive_files globals_start_def)
  have never: "fst (processFile file index g) \<noteq> Throws e"
    using processFile_task [of "file" index g e] by simp
  have task: "\<not> runs_into_undefined file \<longrightarrow>
        fst (processFile file index g) = Returns ()
        \<and> scanned_count (fst (snd (processFile file index g))) = scanned_count g + 1
        \<and> mqa_count (fst (snd (processFile file index g)))
            = (if positive_detection file then mqa_count g + 1 else mqa_count g)"
  proof
    assume "\<not> runs_into_undefined file"
    then have "fst (processFile file index g) = Returns ()"
      by (rule processFile_returns)
    with processFile_task [of "file" index g e]
    show "fst (processFile file index g) = Returns ()
        \<and> scanned_count (fst (snd (processFile file index g))) = scanned_count g + 1
        \<and> mqa_count (fst (snd (processFile file index g)))
            = (if positive_detection file then mqa_count g + 1 else mqa_count g)"
      by simp
  qed
  have run: "(\<forall>f\<in>set files. \<not> runs_into_undefined f) \<longrightarrow>
        fst (process_all files count g) = Returns ()
        \<and> scanned_count (fst (snd (process_all files count g))) = scanned_count g + of_nat (length files)
        \<and> mqa_count (fst (snd (process_all files count g)))
            = mqa_count g + of_nat (length (filter positive_detection files))"
  proof
    assume "\<forall>f\<in>set files. \<not> runs_into_undefined f"
    then have r: "fst (process_all files count g) = Returns ()"
      by (rule process_all_returns)
    with process_all_counts [OF r]
    show "fst (process_all files count g) = Returns ()
        \<and> scanned_count (fst (snd (process_all files count g))) = scanned_count g + of_nat (length files)
        \<and> mqa_count (fst (snd (process_all files count g)))
            = mqa_count g + of_nat (length (filter positive_detection files))"
      by simp
  qed
  from never task run ex three show ?thesis by (intro conjI)
qed

theorem processFile_counts_witness:
  "\<not> runs_into_undefined positive_file \<and> positive_detection positive_file
   \<and> fst (processFile positive_file 1 globals_start) = Returns ()
   \<and> scanned_count (fst (snd (processFile positive_file 1 globals_start))) = 1
   \<and> mqa_count (fst (snd (processFile positive_file 1 globals_start))) = 1
   \<and> \<not> runs_into_undefined text_file \<and> \<not> positive_detection text_file
   \<and> fst (processFile text_file 3 globals_start) = Returns ()
   \<and> scanned_count (fst (snd (processFile text_file 3 globals_start))) = 1
   \<and> mqa_count (fst (snd (processFile text_file 3 globals_start))) = 0"
  using processFile_counts [of positive_file 1 globals_start]
    processFile_counts [of text_file 3 globals_start]
  by (simp add: positive_files defined_files globals_start_def)

section \<open>Scheduling\<close>















end
